theory Spec2Isabelle
  imports Main "HOL-Library.Word" "HOL-Library.Signed_Division"
begin

unbundle bit_operations_syntax

section \<open>The NEO container codec (neo.go, xor.go)\<close>

text \<open>
  Go's \<open>byte\<close> is an 8-bit word, \<open>uint32\<close> a 32-bit word. Go's \<open>uint\<close> and \<open>int\<close> have
  the platform's width; the model takes the 64-bit platforms, so \<open>uint\<close> is a 64-bit word
  and \<open>int(u)\<close> reads it as two's complement (\<open>sint\<close>). A slice is a list; a Go slice
  never holds \<open>2 ^ 63\<close> elements or more, a list may, so theorems that convert a length
  with \<open>uint(len(p))\<close> say which lengths they cover. Lengths, cursors and counters of
  type \<open>int\<close> that only count bytes already held in memory are natural numbers.
\<close>

type_synonym byte = "8 word"
type_synonym uint = "64 word"
type_synonym uint32 = "32 word"

text \<open>The errors of neo.go, and \<open>io.EOF\<close> of the standard library.\<close>

datatype error =
    ErrCRCCheckFailed
  | ErrNotNEOHeader
  | ErrBadVersion
  | ErrUnknownCryptoMethod
  | EOF

text \<open>
  A panic ends the call and returns nothing: \<open>panic("len not equal")\<close> of UnMarshall,
  \<open>panic("xor: len(dst) < len(src)")\<close> of XORKeyStream, and the run-time panics of
  indexing, slicing and of the integer remainder by zero.
\<close>

datatype panic =
    LenNotEqual
  | XorShortDst
  | IndexOutOfRange
  | SliceBoundsOutOfRange
  | DivideByZero

definition VersionV1 :: byte where
  "VersionV1 = 1"

definition FlagVersion :: byte where
  "FlagVersion = 0x0F"

definition XorEnc :: byte where
  "XorEnc = 1"

definition NeoMagicNumber :: "byte list" where
  "NeoMagicNumber = [0xFF, 0x4E, 0x45, 0x4F]"

record NeoHeader =
  Version :: byte
  OriginalHeaderEncMethod :: byte
  OriginalHeader :: "byte list"
  OriginalFilenameEncMethod :: byte
  OriginalFilename :: "byte list"
  Crc32 :: uint32

subsection \<open>The variable-length integer\<close>

text \<open>
  \<open>for i := 0; i < int(u)/0xFF; i++ { buf.WriteByte(0xFF) }\<close>: the bound \<open>q\<close> is computed
  once, by a signed division that truncates; the loop writes nothing when it is not positive.
\<close>

function encodeVUint_loop :: "int \<Rightarrow> int \<Rightarrow> byte list \<Rightarrow> byte list" where
  "encodeVUint_loop i q buf =
     (if i < q then encodeVUint_loop (i + 1) q (buf @ [0xFF]) else buf)"
  by pat_completeness auto
termination
  by (relation "measure (\<lambda>(i, q, buf). nat (q - i))") auto

definition encodeVUint :: "uint \<Rightarrow> byte list" where
  "encodeVUint u =
     encodeVUint_loop 0 (sint u sdiv 0xFF) [] @ [ucast (u mod 0xFF)]"

text \<open>
  \<open>for idx, v := range p\<close>: \<open>res\<close> is a \<open>uint\<close> and wraps; \<open>surplus\<close> stays nil (the empty
  list) when the range ends without a byte other than 0xFF.
\<close>

fun decodeVUint_loop :: "uint \<Rightarrow> byte list \<Rightarrow> uint \<times> byte list" where
  "decodeVUint_loop res [] = (res, [])"
| "decodeVUint_loop res (v # p) =
     (if v = 0xFF then decodeVUint_loop (res + 0xFF) p
      else (res + ucast v, p))"

definition decodeVUint :: "byte list \<Rightarrow> uint \<times> byte list" where
  "decodeVUint p = decodeVUint_loop 0 p"

subsection \<open>The exclusive-or stream (xor.go)\<close>

record XorStream =
  xs_idx :: uint
  xs_key :: "byte list"

definition NewXorStream :: "byte list \<Rightarrow> XorStream" where
  "NewXorStream k = \<lparr>xs_idx = 0, xs_key = k\<rparr>"

text \<open>
  \<open>for i, v := range src { dst[i] = v ^ s.key[s.idx%uint(len(s.key))] }\<close>. The remainder
  by \<open>uint(len(s.key))\<close> panics when that is zero; otherwise the index is inside the key.
  Nothing in the loop assigns \<open>s.idx\<close>.
\<close>

fun XORKeyStream_loop :: "XorStream \<Rightarrow> nat \<Rightarrow> byte list \<Rightarrow> byte list \<Rightarrow> panic + byte list" where
  "XORKeyStream_loop s i [] dst = Inr dst"
| "XORKeyStream_loop s i (v # src) dst =
     (if (of_nat (length (xs_key s)) :: uint) = 0 then Inl DivideByZero
      else XORKeyStream_loop s (Suc i) src
             (dst[i := v XOR xs_key s ! unat (xs_idx s mod of_nat (length (xs_key s)))]))"

definition XORKeyStream :: "XorStream \<Rightarrow> byte list \<Rightarrow> byte list \<Rightarrow> panic + (XorStream \<times> byte list)" where
  "XORKeyStream s dst src =
     (if length src = 0 then Inr (s, dst)
      else if length dst < length src then Inl XorShortDst
      else (case XORKeyStream_loop s 0 src dst of
              Inl e \<Rightarrow> Inl e
            | Inr dst' \<Rightarrow> Inr (s, dst')))"

subsection \<open>Slices and the standard library's byte order\<close>

text \<open>
  \<open>copy(dst[lo:], src)\<close> overwrites as many bytes as both sides hold and returns the
  changed \<open>dst\<close>.
\<close>

definition copy_at :: "nat \<Rightarrow> byte list \<Rightarrow> byte list \<Rightarrow> byte list" where
  "copy_at lo dst src =
     (let n = min (length dst - lo) (length src)
      in take lo dst @ take n src @ drop (lo + n) dst)"

text \<open>
  \<open>a, s = s[:k], s[k:]\<close> with \<open>k\<close> a \<open>uint\<close>: the second slice expression panics when
  \<open>k\<close> exceeds \<open>len(s)\<close>, whatever the capacity of \<open>s\<close> is.
\<close>

definition split_at :: "uint \<Rightarrow> byte list \<Rightarrow> panic + (byte list \<times> byte list)" where
  "split_at k s =
     (if unat k \<le> length s then Inr (take (unat k) s, drop (unat k) s)
      else Inl SliceBoundsOutOfRange)"

text \<open>\<open>binary.BigEndian.PutUint32\<close> on a buffer of four bytes, and \<open>binary.BigEndian.Uint32\<close>.\<close>

definition PutUint32 :: "uint32 \<Rightarrow> byte list" where
  "PutUint32 v = [ucast (drop_bit 24 v), ucast (drop_bit 16 v), ucast (drop_bit 8 v), ucast v]"

fun Uint32 :: "byte list \<Rightarrow> panic + uint32" where
  "Uint32 (b0 # b1 # b2 # b3 # _) =
     Inr (ucast b3 OR push_bit 8 (ucast b2) OR push_bit 16 (ucast b1) OR push_bit 24 (ucast b0))"
| "Uint32 _ = Inl IndexOutOfRange"

subsection \<open>The header: Marshall and UnMarshall\<close>

definition writeContentWithXorEnc :: "byte list \<Rightarrow> byte list \<Rightarrow> byte list \<Rightarrow> panic + byte list" where
  "writeContentWithXorEnc buf content k =
     (let buf1 = buf @ [XorEnc];
          buf2 = buf1 @ encodeVUint (of_nat (length k));
          buf3 = buf2 @ k;
          buf4 = buf3 @ encodeVUint (of_nat (length content));
          dst = replicate (length content) 0
      in case XORKeyStream (NewXorStream k) dst content of
           Inl e \<Rightarrow> Inl e
         | Inr (s, dst') \<Rightarrow> Inr (buf4 @ dst'))"

definition loadContextWithXorEnc :: "byte list \<Rightarrow> panic + (byte list \<times> byte list)" where
  "loadContextWithXorEnc p =
     (case decodeVUint p of (keyLen, surplus) \<Rightarrow>
      case split_at keyLen surplus of
        Inl e \<Rightarrow> Inl e
      | Inr (k, surplus1) \<Rightarrow>
      case decodeVUint surplus1 of (contentLen, surplus2) \<Rightarrow>
      case split_at contentLen surplus2 of
        Inl e \<Rightarrow> Inl e
      | Inr (secContent, surplus3) \<Rightarrow>
      case XORKeyStream (NewXorStream k) (replicate (unat contentLen) 0) secContent of
        Inl e \<Rightarrow> Inl e
      | Inr (s, content) \<Rightarrow> Inr (content, surplus3))"

text \<open>
  Marshall reads \<open>rand.Reader\<close> twice, four bytes each time; the model takes what the
  two reads deliver as \<open>k1\<close> and \<open>k2\<close> (a read that fails is not modelled). A Go result
  \<open>([]byte, error)\<close> is a pair, \<open>nil\<close> the empty list and \<open>None\<close>.
\<close>

definition Marshall :: "NeoHeader \<Rightarrow> byte list \<Rightarrow> byte list \<Rightarrow> panic + (byte list \<times> error option)" where
  "Marshall h k1 k2 =
     (if Version h \<noteq> VersionV1 then Inr ([], Some ErrBadVersion)
      else
        let flag = (0::byte) OR (Version h AND FlagVersion);
            buf = [flag]
        in if OriginalHeaderEncMethod h = XorEnc then
             (case writeContentWithXorEnc buf (OriginalHeader h) k1 of
                Inl e \<Rightarrow> Inl e
              | Inr buf1 \<Rightarrow>
                  if OriginalFilenameEncMethod h = XorEnc then
                    (case writeContentWithXorEnc buf1 (OriginalFilename h) k2 of
                       Inl e \<Rightarrow> Inl e
                     | Inr buf2 \<Rightarrow>
                         let buf3 = buf2 @ PutUint32 (Crc32 h);
                             contentLenVint = encodeVUint (of_nat (length buf3));
                             res = replicate (4 + length contentLenVint + length buf3) 0;
                             res1 = copy_at 0 (take 4 res) NeoMagicNumber @ drop 4 res;
                             res2 = copy_at 4 res1 contentLenVint;
                             res3 = copy_at (4 + length contentLenVint) res2 buf3
                         in Inr (res3, None))
                  else Inr ([], Some ErrUnknownCryptoMethod))
           else Inr ([], Some ErrUnknownCryptoMethod))"

text \<open>
  The bytes that Marshall writes, named for the properties below: an obfuscated block
  after its method tag (the length of the key, the key, the length of the content, the
  content combined with the first key byte), and everything that follows the length of
  the header.
\<close>

definition xor_body :: "byte list \<Rightarrow> byte list \<Rightarrow> byte list" where
  "xor_body k c =
     encodeVUint (of_nat (length k)) @ k @ encodeVUint (of_nat (length c))
       @ map (\<lambda>v. v XOR k ! 0) c"

definition hdr_body :: "NeoHeader \<Rightarrow> byte list \<Rightarrow> byte list \<Rightarrow> byte list" where
  "hdr_body h k1 k2 =
     [VersionV1] @ [XorEnc] @ xor_body k1 (OriginalHeader h)
       @ [XorEnc] @ xor_body k2 (OriginalFilename h) @ PutUint32 (Crc32 h)"

text \<open>
  UnMarshall assigns the fields of \<open>h\<close> as it goes, so the header it leaves behind is
  part of the result also when it returns an error. \<open>x, p = p[0], p[1:]\<close> panics on an
  empty \<open>p\<close>.
\<close>

definition UnMarshall :: "NeoHeader \<Rightarrow> byte list \<Rightarrow> panic + (error option \<times> NeoHeader)" where
  "UnMarshall h p =
     (if length p \<le> 4 then Inr (Some ErrNotNEOHeader, h)
      else
        case decodeVUint (drop 4 p) of (neoHdrlen, p1) \<Rightarrow>
        if (of_nat (length p1) :: uint) \<noteq> neoHdrlen then Inl LenNotEqual
        else
          case p1 of [] \<Rightarrow> Inl IndexOutOfRange | flag # p2 \<Rightarrow>
          let h1 = h\<lparr>Version := flag AND FlagVersion\<rparr>
          in if Version h1 \<noteq> VersionV1 then Inr (Some ErrBadVersion, h1)
          else
            case p2 of [] \<Rightarrow> Inl IndexOutOfRange | m1 # p3 \<Rightarrow>
            let h2 = h1\<lparr>OriginalHeaderEncMethod := m1\<rparr>
            in if OriginalHeaderEncMethod h2 = XorEnc then
              (case loadContextWithXorEnc p3 of
                 Inl e \<Rightarrow> Inl e
               | Inr (content, p4) \<Rightarrow>
                 let h3 = h2\<lparr>OriginalHeader := content\<rparr>
                 in case p4 of [] \<Rightarrow> Inl IndexOutOfRange | m2 # p5 \<Rightarrow>
                 let h4 = h3\<lparr>OriginalFilenameEncMethod := m2\<rparr>
                 in if OriginalFilenameEncMethod h4 = XorEnc then
                   (case loadContextWithXorEnc p5 of
                      Inl e \<Rightarrow> Inl e
                    | Inr (filename, p6) \<Rightarrow>
                      let h5 = h4\<lparr>OriginalFilename := filename\<rparr>
                      in case split_at 4 p6 of
                           Inl e \<Rightarrow> Inl e
                         | Inr (crc32, p7) \<Rightarrow>
                           (case Uint32 crc32 of
                              Inl e \<Rightarrow> Inl e
                            | Inr c \<Rightarrow> Inr (None, h5\<lparr>Crc32 := c\<rparr>)))
                 else Inr (Some ErrUnknownCryptoMethod, h4))
            else Inr (Some ErrUnknownCryptoMethod, h2))"

subsection \<open>The streaming encoder\<close>

text \<open>
  The sink \<open>w.w\<close> is a \<open>bytes.Buffer\<close> or a file that takes every byte: its state is the
  list of bytes written so far, and its Write returns \<open>(len(p), nil)\<close>. The two keys that
  Marshall draws are passed to Write, which calls Marshall at most once with success.
\<close>

record NeoWriter =
  nw_originHdrLen :: int
  nw_hdr :: NeoHeader
  nw_w :: "byte list"
  nw_buf :: "byte list"
  nw_isNewHdrWritten :: bool

definition NewNeoWriter :: "byte list \<Rightarrow> int \<Rightarrow> byte list \<Rightarrow> uint32 \<Rightarrow> NeoWriter" where
  "NewNeoWriter w hdrLen filename crc32 =
     \<lparr>nw_originHdrLen = hdrLen,
      nw_hdr = \<lparr>Version = VersionV1, OriginalHeaderEncMethod = XorEnc, OriginalHeader = [],
                OriginalFilenameEncMethod = XorEnc, OriginalFilename = filename, Crc32 = crc32\<rparr>,
      nw_w = w,
      nw_buf = [],
      nw_isNewHdrWritten = False\<rparr>"

text \<open>
  The part of Write from the comment \<open>// got enough bytes\<close> on. \<open>p[w.originHdrLen:]\<close>
  panics when \<open>originHdrLen\<close> is negative or exceeds \<open>len(p)\<close>.
\<close>

definition Write_flush :: "byte list \<Rightarrow> byte list \<Rightarrow> NeoWriter \<Rightarrow> byte list \<Rightarrow> panic + (int \<times> error option \<times> NeoWriter)" where
  "Write_flush k1 k2 w p =
     (let w1 = w\<lparr>nw_hdr := (nw_hdr w)\<lparr>OriginalHeader := nw_buf w\<rparr>\<rparr>
      in case Marshall (nw_hdr w1) k1 k2 of
           Inl e \<Rightarrow> Inl e
         | Inr (hdr, Some err) \<Rightarrow> Inr (0, Some err, w1)
         | Inr (hdr, None) \<Rightarrow>
             let w2 = w1\<lparr>nw_w := nw_w w1 @ hdr, nw_isNewHdrWritten := True\<rparr>
             in if nw_originHdrLen w2 < 0 \<or> int (length p) < nw_originHdrLen w2
                then Inl SliceBoundsOutOfRange
                else
                  let rest = drop (nat (nw_originHdrLen w2)) p
                  in Inr (int (length rest) + nw_originHdrLen w2, None,
                          w2\<lparr>nw_w := nw_w w2 @ rest\<rparr>))"

definition Write :: "byte list \<Rightarrow> byte list \<Rightarrow> NeoWriter \<Rightarrow> byte list \<Rightarrow> panic + (int \<times> error option \<times> NeoWriter)" where
  "Write k1 k2 w p =
     (if nw_isNewHdrWritten w then Inr (int (length p), None, w\<lparr>nw_w := nw_w w @ p\<rparr>)
      else if int (length (nw_buf w)) < nw_originHdrLen w then
        (if int (length p) \<le> nw_originHdrLen w
         then Inr (int (length p), None, w\<lparr>nw_buf := nw_buf w @ p\<rparr>)
         else Write_flush k1 k2 (w\<lparr>nw_buf := nw_buf w @ take (nat (nw_originHdrLen w)) p\<rparr>) p)
      else Write_flush k1 k2 w p)"

text \<open>
  A caller that hands its data over in the given chunks, one Write each, and stops at
  the first error, as \<open>io.Copy\<close> does.
\<close>

fun WriteChunks :: "byte list \<Rightarrow> byte list \<Rightarrow> NeoWriter \<Rightarrow> byte list list \<Rightarrow> panic + (error option \<times> NeoWriter)" where
  "WriteChunks k1 k2 w [] = Inr (None, w)"
| "WriteChunks k1 k2 w (c # cs) =
     (case Write k1 k2 w c of
        Inl e \<Rightarrow> Inl e
      | Inr (n, Some err, w') \<Rightarrow> Inr (Some err, w')
      | Inr (n, None, w') \<Rightarrow> WriteChunks k1 k2 w' cs)"

subsection \<open>The standard library: the byte source and bufio.Reader\<close>

text \<open>
  The source under the decoder is a \<open>bytes.Buffer\<close> or a regular file, given by the bytes
  that remain: a Read into a buffer of \<open>n > 0\<close> bytes delivers the next \<open>min n\<close> of them,
  and \<open>io.EOF\<close> with no byte once none remains.
\<close>

definition src_Read :: "byte list \<Rightarrow> nat \<Rightarrow> byte list \<times> error option \<times> byte list" where
  "src_Read src n =
     (if n = 0 then ([], None, src)
      else if src = [] then ([], Some EOF, src)
      else (take n src, None, drop n src))"

text \<open>
  \<open>bufio.Reader\<close>: \<open>br_buf\<close> is \<open>b.buf[b.r:b.w]\<close>, the bytes read ahead and not yet
  handed out; \<open>br_err\<close> is the pending error \<open>b.err\<close>, which \<open>readErr\<close> returns and clears.
  \<open>bufio.NewReader\<close> reads ahead into 4096 bytes.
\<close>

record bufioReader =
  br_buf :: "byte list"
  br_rd :: "byte list"
  br_err :: "error option"

definition defaultBufSize :: nat where
  "defaultBufSize = 4096"

definition NewReader :: "byte list \<Rightarrow> bufioReader" where
  "NewReader src = \<lparr>br_buf = [], br_rd = src, br_err = None\<rparr>"

text \<open>
  \<open>(*bufio.Reader).Read\<close> into a buffer of \<open>n\<close> bytes: one read of the source at most,
  straight into the caller's buffer when that is at least as large as the read-ahead
  buffer; what it returns may be shorter than \<open>n\<close>.
\<close>

definition bufio_Read :: "bufioReader \<Rightarrow> nat \<Rightarrow> byte list \<times> error option \<times> bufioReader" where
  "bufio_Read b n =
     (if n = 0 then
        (if br_buf b \<noteq> [] then ([], None, b) else ([], br_err b, b\<lparr>br_err := None\<rparr>))
      else if br_buf b = [] then
        (if br_err b \<noteq> None then ([], br_err b, b\<lparr>br_err := None\<rparr>)
         else if defaultBufSize \<le> n then
           (case src_Read (br_rd b) n of (data, e, src') \<Rightarrow>
              (data, e, b\<lparr>br_rd := src', br_err := None\<rparr>))
         else
           (case src_Read (br_rd b) defaultBufSize of (data, e, src') \<Rightarrow>
              if data = [] then ([], e, b\<lparr>br_rd := src', br_err := None\<rparr>)
              else (take n data, None, b\<lparr>br_buf := drop n data, br_rd := src', br_err := e\<rparr>)))
      else (take n (br_buf b), None, b\<lparr>br_buf := drop n (br_buf b)\<rparr>))"

text \<open>\<open>(*bufio.Reader).ReadByte\<close>: refills the read-ahead buffer when it is empty.\<close>

definition bufio_ReadByte :: "bufioReader \<Rightarrow> byte \<times> error option \<times> bufioReader" where
  "bufio_ReadByte b =
     (case br_buf b of
        c # rest \<Rightarrow> (c, None, b\<lparr>br_buf := rest\<rparr>)
      | [] \<Rightarrow>
          if br_err b \<noteq> None then (0, br_err b, b\<lparr>br_err := None\<rparr>)
          else
            (case src_Read (br_rd b) defaultBufSize of (data, e, src') \<Rightarrow>
               (case data of
                  [] \<Rightarrow> (0, e, b\<lparr>br_rd := src', br_err := None\<rparr>)
                | c # rest \<Rightarrow> (c, None, b\<lparr>br_buf := rest, br_rd := src', br_err := e\<rparr>))))"

subsection \<open>The streaming decoder\<close>

record NeoReader =
  nr_n :: nat
  nr_rd :: bufioReader
  nr_NeoHeader :: "NeoHeader option"
  nr_buf :: "byte list"

definition NewNeoReader :: "byte list \<Rightarrow> NeoReader" where
  "NewNeoReader src =
     \<lparr>nr_n = 0, nr_rd = NewReader src, nr_NeoHeader = None, nr_buf = replicate 1024 0\<rparr>"

definition new_NeoHeader :: NeoHeader where
  "new_NeoHeader =
     \<lparr>Version = 0, OriginalHeaderEncMethod = 0, OriginalHeader = [],
      OriginalFilenameEncMethod = 0, OriginalFilename = [], Crc32 = 0\<rparr>"

text \<open>
  The loop of Read that takes the length of the header from the source, a byte at a
  time: \<open>n'\<close> counts the bytes (\<open>n_\<close> in the source), \<open>hdrLen\<close> adds them up.
\<close>

function Read_hdrLen_loop :: "bufioReader \<Rightarrow> nat \<Rightarrow> nat \<Rightarrow> (error + (nat \<times> nat)) \<times> bufioReader" where
  "Read_hdrLen_loop rd n' hdrLen =
     (case bufio_ReadByte rd of
        (v, Some err, rd') \<Rightarrow> (Inl err, rd')
      | (v, None, rd') \<Rightarrow>
          if v \<noteq> 0xFF then (Inr (n' + 1, hdrLen + unat v), rd')
          else Read_hdrLen_loop rd' (n' + 1) (hdrLen + unat v))"
  by pat_completeness auto
termination
proof (relation "measure (\<lambda>(rd, n', hdrLen). length (br_buf rd) + length (br_rd rd))")
  show "wf (measure (\<lambda>(rd, n', hdrLen). length (br_buf rd) + length (br_rd rd)))" by simp
next
  fix rd :: bufioReader and n' hdrLen :: nat and x y x2 y2
  assume "(x, y) = bufio_ReadByte rd" "(x2, y2) = y" "x2 = None"
  then have rb: "bufio_ReadByte rd = (x, None, y2)" by simp
  have "length (br_buf y2) + length (br_rd y2) < length (br_buf rd) + length (br_rd rd)"
  proof (cases "br_buf rd")
    case (Cons c rest)
    with rb show ?thesis by (auto simp: bufio_ReadByte_def)
  next
    case Nil
    show ?thesis
    proof (cases "br_err rd \<noteq> None \<or> br_rd rd = []")
      case True
      with Nil rb show ?thesis
        by (auto simp: bufio_ReadByte_def src_Read_def defaultBufSize_def split: if_splits)
    next
      case False
      then obtain c rest where tk: "take 4096 (br_rd rd) = c # rest"
        by (cases "take 4096 (br_rd rd)") auto
      then have "length (take 4096 (br_rd rd)) = Suc (length rest)" by simp
      then have len: "length rest + (length (br_rd rd) - 4096) < length (br_rd rd)"
        by (simp add: min_def split: if_splits)
      from Nil False tk rb
      have "y2 = rd\<lparr>br_buf := rest, br_rd := drop 4096 (br_rd rd), br_err := None\<rparr>"
        by (auto simp: bufio_ReadByte_def src_Read_def defaultBufSize_def)
      with Nil len show ?thesis by simp
    qed
  qed
  then show "((y2, n' + 1, hdrLen + unat x), rd, n', hdrLen)
        \<in> measure (\<lambda>(rd, n', hdrLen). length (br_buf rd) + length (br_rd rd))"
    by simp
qed

text \<open>
  Read fills the caller's buffer \<open>p\<close> and returns the count \<open>n\<close> and the error; the
  model returns the buffer as Read leaves it and the reader's new state as well. In the
  branch that allocates the header buffer, \<open>make([]byte, len(NeoMagicNumber)+n+hdrLen)\<close>
  uses the result \<open>n\<close>, which is still 0 there. In the other branch \<open>hdr\<close> is a slice of
  \<open>r.buf\<close>, so what is written to it is written to \<open>r.buf\<close>.
\<close>

function Read :: "NeoReader \<Rightarrow> byte list \<Rightarrow> panic + (nat \<times> error option \<times> byte list \<times> NeoReader)" where
  "Read r p =
     (if length p = 0 then Inr (0, None, p, r)
      else
        (case nr_NeoHeader r of
          Some h \<Rightarrow>
            if nr_n r < length (OriginalHeader h) then
              (let n = min (length p) (length (OriginalHeader h) - nr_n r);
                   p1 = copy_at 0 p (drop (nr_n r) (OriginalHeader h));
                   r1 = r\<lparr>nr_n := nr_n r + n\<rparr>
               in if length p1 < nr_n r1 then Inl SliceBoundsOutOfRange
                  else
                    (case Read r1 (drop (nr_n r1) p1) of
                       Inl e \<Rightarrow> Inl e
                     | Inr (n', err', q, r2) \<Rightarrow> Inr (n' + n, err', take (nr_n r1) p1 @ q, r2)))
            else
              (case bufio_Read (nr_rd r) (length p) of (data, err, rd1) \<Rightarrow>
                 Inr (length data, err, copy_at 0 p data, r\<lparr>nr_rd := rd1\<rparr>))
        | None \<Rightarrow>
            if length (nr_buf r) < length NeoMagicNumber then Inl SliceBoundsOutOfRange
            else
              (case bufio_Read (nr_rd r) (length NeoMagicNumber) of (data, err, rd1) \<Rightarrow>
                (let buf1 = copy_at 0 (nr_buf r) data;
                     r1 = r\<lparr>nr_rd := rd1, nr_buf := buf1\<rparr>
                 in if err \<noteq> None then Inr (0, None, p, r1)
                 else if take (length NeoMagicNumber) buf1 \<noteq> NeoMagicNumber
                   then Inr (0, Some ErrNotNEOHeader, p, r1)
                 else
                   (case Read_hdrLen_loop rd1 0 0 of
                     (Inl err1, rd2) \<Rightarrow> Inr (0, Some err1, p, r1\<lparr>nr_rd := rd2\<rparr>)
                   | (Inr (n', hdrLen), rd2) \<Rightarrow>
                       (let inplace = (length NeoMagicNumber + n' + hdrLen \<le> length buf1);
                            hdr = (if inplace then take (length NeoMagicNumber + n' + hdrLen) buf1
                                   else replicate (length NeoMagicNumber + 0 + hdrLen) 0);
                            hdr1 = copy_at 0 hdr NeoMagicNumber;
                            hdr2 = copy_at (length NeoMagicNumber) hdr1 (encodeVUint (of_nat hdrLen))
                        in if length hdr2 < length NeoMagicNumber + n' then Inl SliceBoundsOutOfRange
                        else
                          (case bufio_Read rd2 (length hdr2 - (length NeoMagicNumber + n')) of
                            (data2, err2, rd3) \<Rightarrow>
                            (let hdr3 = copy_at (length NeoMagicNumber + n') hdr2 data2;
                                 buf2 = (if inplace then hdr3 @ drop (length hdr3) buf1 else buf1);
                                 r2 = r\<lparr>nr_rd := rd3, nr_buf := buf2\<rparr>
                             in if err2 \<noteq> None then Inr (0, err2, p, r2)
                             else
                               (case UnMarshall new_NeoHeader hdr3 of
                                  Inl e \<Rightarrow> Inl e
                                | Inr (Some err3, h') \<Rightarrow>
                                    Inr (0, None, p, r2\<lparr>nr_NeoHeader := Some h'\<rparr>)
                                | Inr (None, h') \<Rightarrow> Read (r2\<lparr>nr_NeoHeader := Some h'\<rparr>) p)))))))))"
  by pat_completeness auto
termination
  apply (relation "measures [\<lambda>(r, p). if nr_NeoHeader r = None then 1 else 0, \<lambda>(r, p). length p]")
  subgoal by simp
  subgoal by simp
  subgoal premises prems for r p h n p1 r1
  proof -
    have "length (copy_at 0 p (drop (nr_n r) (OriginalHeader h))) = length p"
      unfolding copy_at_def Let_def by simp
    with prems show ?thesis by (cases p) (simp_all add: min_def)
  qed
  done

declare Read.simps [simp del]

text \<open>
  A caller that reads with buffers of the given sizes, one Read each, collects
  \<open>p[:n]\<close> of every call and stops at the first error (\<open>io.EOF\<close> at the end of the
  source), as \<open>ioutil.ReadAll\<close> does with its own sizes.
\<close>

fun ReadSizes :: "NeoReader \<Rightarrow> nat list \<Rightarrow> panic + (byte list \<times> error option \<times> NeoReader)" where
  "ReadSizes r [] = Inr ([], None, r)"
| "ReadSizes r (k # ks) =
     (case Read r (replicate k 0) of
        Inl e \<Rightarrow> Inl e
      | Inr (n, Some err, p', r') \<Rightarrow> Inr (take n p', Some err, r')
      | Inr (n, None, p', r') \<Rightarrow>
          (case ReadSizes r' ks of
             Inl e \<Rightarrow> Inl e
           | Inr (out, err, r'') \<Rightarrow> Inr (take n p' @ out, err, r'')))"

subsection \<open>Example inputs\<close>

text \<open>The header of the repository's test of Marshall, with its file name in UTF-8.\<close>

definition test_hdr :: NeoHeader where
  "test_hdr =
     \<lparr>Version = 1, OriginalHeaderEncMethod = 1,
      OriginalHeader = [0x52, 0x61, 0x71, 0x21, 0x1a, 0x07, 0x01, 0x00],
      OriginalFilenameEncMethod = 1,
      OriginalFilename = [0xE8, 0xBF, 0x99, 0xE6, 0x98, 0xAF, 0xE5, 0x8E, 0x8B, 0xE7, 0xBC, 0xA9,
        0xE6, 0x96, 0x87, 0xE4, 0xBB, 0xB6, 0xE2, 0x9D, 0xA4, 0xEF, 0xB8, 0x8F, 0x2E, 0x72, 0x61, 0x72],
      Crc32 = 6655\<rparr>"

section \<open>Properties\<close>

subsection \<open>The variable-length integer\<close>

lemma encodeVUint_loop_eq: "encodeVUint_loop i q buf = buf @ replicate (nat (q - i)) 0xFF"
proof (induction i q buf rule: encodeVUint_loop.induct)
  case (1 i q buf)
  show ?case
  proof (cases "i < q")
    case True
    then have "nat (q - i) = Suc (nat (q - (i + 1)))" by simp
    with True 1 show ?thesis by (simp add: replicate_app_Cons_same)
  next
    case False
    then show ?thesis by simp
  qed
qed

lemma decodeVUint_loop_sentinels:
  "decodeVUint_loop res (replicate n 0xFF @ p) = decodeVUint_loop (res + 0xFF * of_nat n) p"
  by (induction n arbitrary: res) (simp_all add: algebra_simps)

lemma sint_small:
  assumes "unat (u::uint) < 2 ^ 63" shows "sint u = int (unat u)"
proof -
  from assms have "int (unat u) < int (2 ^ 63)" by (simp only: of_nat_less_iff)
  then have "uint u < 2 ^ 63" by simp
  moreover have "- (2 ^ 63) \<le> uint u" by (rule order_trans [of _ 0]) simp_all
  ultimately have "signed_take_bit 63 (uint u) = uint u"
    by (rule signed_take_bit_int_eq_self [rotated])
  then show ?thesis by (simp add: sint_uint)
qed

lemma encodeVUint_small:
  assumes "unat (u::uint) < 2 ^ 63"
  shows "encodeVUint u = replicate (unat u div 255) 0xFF @ [of_nat (unat u mod 255)]"
proof -
  have "sint u sdiv 255 = int (unat u) sdiv 255"
    by (simp only: sint_small [OF assms])
  also have "\<dots> = int (unat u) div 255"
    by (simp add: signed_divide_int_def sgn_if)
  also have "\<dots> = int (unat u div 255)"
    by (simp only: zdiv_int of_nat_numeral)
  finally have q: "nat (sint u sdiv 0xFF - 0) = unat u div 255"
    by (simp only: diff_zero nat_int)
  have "unat (u mod 255) = unat u mod 255"
    by (simp only: unat_mod) simp
  then have "(of_nat (unat (u mod 255)) :: byte) = of_nat (unat u mod 255)"
    by (rule arg_cong)
  moreover have "(ucast (u mod 255) :: byte) = of_nat (unat (u mod 255))"
    by (simp only: of_nat_unat)
  ultimately have t: "(ucast (u mod 0xFF) :: byte) = of_nat (unat u mod 255)"
    by (simp only:)
  show ?thesis
    by (simp only: encodeVUint_def encodeVUint_loop_eq q t append_Nil)
qed

lemma term_byte: "(of_nat (n mod 255) :: byte) \<noteq> 0xFF"
proof
  assume "(of_nat (n mod 255) :: byte) = 0xFF"
  then have "unat (of_nat (n mod 255) :: byte) = unat (0xFF :: byte)" by simp
  then have "n mod 255 mod 256 = 255" by (simp add: unat_of_nat)
  moreover have "n mod 255 < 255" by simp
  ultimately show False by simp
qed

lemma term_cast: "(ucast (of_nat (n mod 255) :: byte) :: uint) = of_nat (n mod 255)"
proof -
  have "n mod 255 < 256" by (rule less_trans [of _ 255]) simp_all
  then have "unat (of_nat (n mod 255) :: byte) = n mod 255" by (simp add: unat_of_nat)
  moreover have "(ucast (of_nat (n mod 255) :: byte) :: uint) = of_nat (unat (of_nat (n mod 255) :: byte))"
    by simp
  ultimately show ?thesis by (simp only:)
qed

lemma decode_encode_small:
  assumes "unat (u::uint) < 2 ^ 63"
  shows "decodeVUint (encodeVUint u @ p) = (u, p)"
proof -
  have "(0xFF * of_nat (unat u div 255) + of_nat (unat u mod 255) :: uint)
        = of_nat (255 * (unat u div 255) + unat u mod 255)"
    by (simp only: of_nat_add of_nat_mult of_nat_numeral)
  also have "\<dots> = of_nat (unat u)"
    by (simp only: mult_div_mod_eq)
  also have "\<dots> = u" by simp
  finally show ?thesis
    using assms by (simp add: encodeVUint_small decodeVUint_def decodeVUint_loop_sentinels term_byte term_cast)
qed

text \<open>
  C4, as the code has it. For every \<open>u\<close> below \<open>2 ^ 63\<close>, the values whose conversion
  \<open>int(u)\<close> is not negative, encodeVUint writes \<open>u div 255\<close> bytes 0xFF and then the byte
  \<open>u mod 255\<close>, and decodeVUint gives back \<open>u\<close> and an empty rest.
\<close>

theorem encodeVUint_decodeVUint_below_int_max:
  assumes "unat (u::uint) < 2 ^ 63"
  shows "encodeVUint u = replicate (unat u div 255) 0xFF @ [of_nat (unat u mod 255)] \<and>
         decodeVUint (encodeVUint u) = (u, [])"
  using assms encodeVUint_small [OF assms] decode_encode_small [OF assms, of "[]"] by simp

theorem encodeVUint_decodeVUint_below_int_max_witness:
  "unat (600::uint) < 2 ^ 63 \<and>
   encodeVUint 600 = replicate (unat (600::uint) div 255) 0xFF @ [of_nat (unat (600::uint) mod 255)] \<and>
   decodeVUint (encodeVUint 600) = (600, [])"
proof -
  have h: "unat (600::uint) < 2 ^ 63" by simp
  show ?thesis using h encodeVUint_decodeVUint_below_int_max [OF h] by blast
qed

text \<open>
  C4 as stated, for every \<open>uint\<close>, fails at \<open>u = 2 ^ 63\<close>: \<open>int(u)\<close> is negative there,
  the loop writes no 0xFF at all, and the one byte written decodes to 128.
\<close>

theorem encodeVUint_int_conversion_counterexample:
  "encodeVUint 0x8000000000000000 = [0x80] \<and>
   encodeVUint 0x8000000000000000 \<noteq>
     replicate (unat (0x8000000000000000 :: uint) div 255) 0xFF
       @ [of_nat (unat (0x8000000000000000 :: uint) mod 255)] \<and>
   decodeVUint (encodeVUint 0x8000000000000000) \<noteq> (0x8000000000000000, [])"
proof -
  have enc: "encodeVUint 0x8000000000000000 = [0x80]"
    by (simp add: encodeVUint_def)
  have "length (replicate (unat (0x8000000000000000 :: uint) div 255) (0xFF :: byte)
          @ [of_nat (unat (0x8000000000000000 :: uint) mod 255)]) \<noteq> length [0x80 :: byte]"
    by simp
  then have "replicate (unat (0x8000000000000000 :: uint) div 255) (0xFF :: byte)
          @ [of_nat (unat (0x8000000000000000 :: uint) mod 255)] \<noteq> [0x80 :: byte]"
    by (metis (no_types))
  moreover have "decodeVUint [0x80] = (0x80, [])"
    by (simp add: decodeVUint_def)
  ultimately show ?thesis by (simp add: enc)
qed

text \<open>
  C10. On a slice that holds nothing but \<open>n\<close> bytes 0xFF (the empty slice for \<open>n = 0\<close>)
  decodeVUint returns 255 times \<open>n\<close>, computed in \<open>uint\<close>, and the empty rest: the same
  result as on those bytes followed by the terminal byte 0. The value is the number
  \<open>255 * n\<close> itself as long as that fits a \<open>uint\<close>.
\<close>

theorem decodeVUint_unterminated:
  "decodeVUint (replicate n 0xFF) = (0xFF * of_nat n, []) \<and>
   decodeVUint (replicate n 0xFF @ [0]) = (0xFF * of_nat n, []) \<and>
   (255 * n < 2 ^ 64 \<longrightarrow> unat (fst (decodeVUint (replicate n 0xFF))) = 255 * n)"
proof -
  have a: "decodeVUint (replicate n 0xFF) = (0xFF * of_nat n, [])"
    using decodeVUint_loop_sentinels [of 0 n "[]"] by (simp add: decodeVUint_def)
  have b: "decodeVUint (replicate n 0xFF @ [0]) = (0xFF * of_nat n, [])"
    using decodeVUint_loop_sentinels [of 0 n "[0]"] by (simp add: decodeVUint_def)
  have c: "unat (0xFF * of_nat n :: uint) = 255 * n" if "255 * n < 2 ^ 64"
  proof -
    have "(0xFF * of_nat n :: uint) = of_nat (255 * n)"
      by (simp only: of_nat_mult of_nat_numeral)
    then show ?thesis using that by (simp only: unat_of_nat) simp
  qed
  show ?thesis using a b c by simp
qed

theorem decodeVUint_unterminated_witness:
  "255 * (2::nat) < 2 ^ 64 \<and>
   decodeVUint (replicate 2 0xFF) = (510, []) \<and>
   decodeVUint (replicate 2 0xFF @ [0]) = (510, []) \<and>
   unat (fst (decodeVUint (replicate 2 0xFF))) = 510"
  using decodeVUint_unterminated [of 2] by simp

subsection \<open>The exclusive-or stream\<close>

lemma key_len_nonzero:
  assumes "0 < length (k :: byte list)" "length k < 2 ^ 64"
  shows "(of_nat (length k) :: uint) \<noteq> 0"
proof
  assume "(of_nat (length k) :: uint) = 0"
  then have "unat (of_nat (length k) :: uint) = 0" by simp
  then have "length k mod 2 ^ 64 = 0" by (simp add: unat_of_nat)
  with assms show False by simp
qed

lemma XORKeyStream_loop_eq:
  assumes "(of_nat (length (xs_key s)) :: uint) \<noteq> 0"
  shows "i + length src \<le> length dst \<Longrightarrow>
    XORKeyStream_loop s i src dst =
      Inr (take i dst
           @ map (\<lambda>v. v XOR xs_key s ! unat (xs_idx s mod of_nat (length (xs_key s)))) src
           @ drop (i + length src) dst)"
proof (induction src arbitrary: i dst)
  case Nil
  then show ?case by simp
next
  case (Cons v src)
  let ?x = "v XOR xs_key s ! unat (xs_idx s mod of_nat (length (xs_key s)))"
  from Cons.prems have i: "i < length dst" by simp
  have upd: "dst[i := ?x] = take i dst @ ?x # drop (Suc i) dst"
    using i by (rule upd_conv_take_nth_drop)
  have len: "Suc i + length src \<le> length (dst[i := ?x])"
    using Cons.prems by simp
  have tk: "take (Suc i) (dst[i := ?x]) = take i dst @ [?x]"
    using i by (simp add: upd)
  have dr: "drop (Suc i + length src) (dst[i := ?x]) = drop (Suc i + length src) dst"
    by simp
  show ?case
    using assms Cons.IH [OF len] by (simp only: XORKeyStream_loop.simps if_False tk dr) simp
qed

lemma XORKeyStream_fresh:
  assumes "0 < length k" "length k < 2 ^ 64" "length src \<le> length dst"
  shows "XORKeyStream (NewXorStream k) dst src =
           Inr (NewXorStream k, map (\<lambda>v. v XOR k ! 0) src @ drop (length src) dst)"
proof (cases "src = []")
  case True
  then show ?thesis by (simp add: XORKeyStream_def)
next
  case False
  have nz: "(of_nat (length (xs_key (NewXorStream k))) :: uint) \<noteq> 0"
    using assms(1,2) by (simp add: NewXorStream_def key_len_nonzero)
  have "XORKeyStream_loop (NewXorStream k) 0 src dst =
          Inr (map (\<lambda>v. v XOR k ! 0) src @ drop (length src) dst)"
    using XORKeyStream_loop_eq [OF nz, of 0 src dst] assms(3)
    by (simp add: NewXorStream_def)
  with False assms(3) show ?thesis by (simp add: XORKeyStream_def)
qed

lemma xor_twice: "map ((\<lambda>v. v XOR (c::byte)) \<circ> (\<lambda>v. v XOR c)) src = src"
  by (induction src) (simp_all add: xor.assoc)

text \<open>
  C9. For a key of at least one byte, XORKeyStream on a new XorStream with that key,
  applied to \<open>src\<close>, and XORKeyStream on another new XorStream with the same key, applied
  to what the first call wrote, gives back \<open>src\<close>. The destinations are any buffers that
  are not shorter than \<open>src\<close>; the key is shorter than \<open>2 ^ 64\<close> bytes, as every slice is.
\<close>

theorem XORKeyStream_involution:
  assumes "0 < length k" "length k < 2 ^ 64"
    and "length src \<le> length dst" "length src \<le> length dst'"
  shows "\<exists>s1 mid s2 out.
           XORKeyStream (NewXorStream k) dst src = Inr (s1, mid) \<and>
           XORKeyStream (NewXorStream k) dst' (take (length src) mid) = Inr (s2, out) \<and>
           take (length src) out = src"
proof -
  let ?mid = "map (\<lambda>v. v XOR k ! 0) src @ drop (length src) dst"
  have 1: "XORKeyStream (NewXorStream k) dst src = Inr (NewXorStream k, ?mid)"
    using assms(1,2,3) by (rule XORKeyStream_fresh)
  have tk: "take (length src) ?mid = map (\<lambda>v. v XOR k ! 0) src" by simp
  have "length (take (length src) ?mid) \<le> length dst'" using assms(4) by simp
  from XORKeyStream_fresh [OF assms(1,2) this]
  have 2: "XORKeyStream (NewXorStream k) dst' (take (length src) ?mid) =
             Inr (NewXorStream k, src @ drop (length src) dst')"
    by (simp add: xor_twice)
  show ?thesis using 1 2 by simp
qed

theorem XORKeyStream_involution_witness:
  "\<exists>s1 mid s2 out.
     XORKeyStream (NewXorStream [1, 2]) [0, 0, 0] [0x10, 0x20, 0x30] = Inr (s1, mid) \<and>
     XORKeyStream (NewXorStream [1, 2]) [0, 0, 0] (take (length [0x10, 0x20, 0x30 :: byte]) mid) = Inr (s2, out) \<and>
     take (length [0x10, 0x20, 0x30 :: byte]) out = [0x10, 0x20, 0x30]"
  using XORKeyStream_involution [of "[1, 2]" "[0x10, 0x20, 0x30]" "[0, 0, 0]" "[0, 0, 0]"]
  by simp

text \<open>
  C3 fails on the code: XORKeyStream never advances \<open>idx\<close>, so every byte is combined
  with \<open>key[0]\<close>. With the key \<open>[1, 2]\<close> and the source \<open>[0, 0]\<close> the second output byte
  is 1 and not \<open>key[1] = 2\<close>, and the stream that comes back still has \<open>idx = 0\<close>.
\<close>

theorem XORKeyStream_position_stuck:
  "XORKeyStream (NewXorStream [1, 2]) [0, 0] [0, 0] =
     Inr (\<lparr>xs_idx = 0, xs_key = [1, 2]\<rparr>, [1, 1])"
  by (simp add: XORKeyStream_def NewXorStream_def)

subsection \<open>The header\<close>

lemma unat_of_nat_small: "n < 2 ^ 63 \<Longrightarrow> unat (of_nat n :: uint) = n"
proof -
  assume "n < 2 ^ 63"
  then have "n < 2 ^ 64" by (rule less_trans) simp
  then show ?thesis by (simp only: unat_of_nat) simp
qed

lemma decode_encode_nat:
  assumes "n < 2 ^ 63"
  shows "decodeVUint (encodeVUint (of_nat n) @ p) = (of_nat n, p)"
proof -
  have "unat (of_nat n :: uint) < 2 ^ 63"
    using assms by (simp only: unat_of_nat_small)
  then show ?thesis by (rule decode_encode_small)
qed

lemma split_at_append:
  assumes "length a < 2 ^ 63"
  shows "split_at (of_nat (length a)) (a @ r) = Inr (a, r)"
  by (simp add: split_at_def unat_of_nat_small [OF assms])

lemma writeContentWithXorEnc_eq:
  assumes "0 < length k" "length k < 2 ^ 64"
  shows "writeContentWithXorEnc buf c k = Inr (buf @ [XorEnc] @ xor_body k c)"
proof -
  have "XORKeyStream (NewXorStream k) (replicate (length c) 0) c =
          Inr (NewXorStream k, map (\<lambda>v. v XOR k ! 0) c)"
    using XORKeyStream_fresh [OF assms, of c "replicate (length c) 0"] by simp
  then show ?thesis
    by (simp add: writeContentWithXorEnc_def xor_body_def Let_def)
qed

lemma loadContextWithXorEnc_body:
  assumes "0 < length k" "length k < 2 ^ 63" "length c < 2 ^ 63"
  shows "loadContextWithXorEnc (xor_body k c @ rest) = Inr (c, rest)"
proof -
  let ?sec = "map (\<lambda>v. v XOR k ! 0) c"
  have k64: "length k < 2 ^ 64" using assms(2) by (rule less_trans) simp
  have d1: "decodeVUint (xor_body k c @ rest)
              = (of_nat (length k), k @ encodeVUint (of_nat (length c)) @ ?sec @ rest)"
    using decode_encode_nat [OF assms(2)] by (simp add: xor_body_def)
  have s1: "split_at (of_nat (length k)) (k @ encodeVUint (of_nat (length c)) @ ?sec @ rest)
              = Inr (k, encodeVUint (of_nat (length c)) @ ?sec @ rest)"
    using assms(2) by (rule split_at_append)
  have d2: "decodeVUint (encodeVUint (of_nat (length c)) @ ?sec @ rest)
              = (of_nat (length c), ?sec @ rest)"
    using assms(3) by (rule decode_encode_nat)
  have "length ?sec < 2 ^ 63" using assms(3) by simp
  from split_at_append [OF this, of rest]
  have s2: "split_at (of_nat (length c)) (?sec @ rest) = Inr (?sec, rest)" by simp
  have x: "XORKeyStream (NewXorStream k) (replicate (unat (of_nat (length c) :: uint)) 0) ?sec
             = Inr (NewXorStream k, c)"
    using XORKeyStream_fresh [OF assms(1) k64, of ?sec "replicate (length c) 0"]
    by (simp add: unat_of_nat_small [OF assms(3)] xor_twice)
  show ?thesis
    by (simp add: loadContextWithXorEnc_def d1 s1 d2 s2 x)
qed

lemma copy_at_fill:
  "copy_at (length a) (a @ replicate (length s + m) 0) s = a @ s @ replicate m 0"
  by (simp add: copy_at_def Let_def)

lemma Uint32_PutUint32: "Uint32 (PutUint32 c @ rest) = Inr c"
proof -
  have "ucast (ucast c :: byte) OR push_bit 8 (ucast (ucast (drop_bit 8 c) :: byte))
          OR push_bit 16 (ucast (ucast (drop_bit 16 c) :: byte))
          OR push_bit 24 (ucast (ucast (drop_bit 24 c) :: byte)) = c"
  proof (rule bit_word_eqI)
    fix n
    assume "n < LENGTH(32)"
    then consider "n < 8" | "8 \<le> n" "n < 16" | "16 \<le> n" "n < 24" | "24 \<le> n" "n < 32"
      by fastforce
    then show "bit (ucast (ucast c :: byte) OR push_bit 8 (ucast (ucast (drop_bit 8 c) :: byte))
          OR push_bit 16 (ucast (ucast (drop_bit 16 c) :: byte))
          OR push_bit 24 (ucast (ucast (drop_bit 24 c) :: byte)) :: uint32) n = bit c n"
      by cases (auto simp add: bit_simps)
  qed
  then show ?thesis by (simp add: PutUint32_def)
qed

lemma length_encodeVUint_nat:
  assumes "n < 2 ^ 63"
  shows "length (encodeVUint (of_nat n)) = n div 255 + 1"
proof -
  have u: "unat (of_nat n :: uint) = n" using assms by (rule unat_of_nat_small)
  then have "unat (of_nat n :: uint) < 2 ^ 63" using assms by (simp only:)
  from encodeVUint_small [OF this] show ?thesis by (simp only: u) simp
qed

lemma assemble:
  assumes "length mg = 4"
  shows "copy_at (4 + length v)
           (copy_at 4 (copy_at 0 (take 4 (replicate (4 + length v + length b) 0)) mg
                        @ drop 4 (replicate (4 + length v + length b) 0)) v) b
         = mg @ v @ b"
proof -
  have 1: "copy_at 0 (take 4 (replicate (4 + length v + length b) 0)) mg
             @ drop 4 (replicate (4 + length v + length b) 0)
           = mg @ replicate (length v + length b) 0"
    using assms by (simp add: copy_at_def Let_def)
  have 2: "copy_at 4 (mg @ replicate (length v + length b) 0) v = mg @ v @ replicate (length b) 0"
    using copy_at_fill [of mg v "length b"] assms by simp
  have 3: "copy_at (4 + length v) (mg @ v @ replicate (length b) 0) b = mg @ v @ b"
    using copy_at_fill [of "mg @ v" b 0] assms by simp
  show ?thesis by (simp only: 1 2 3)
qed

lemma Marshall_eq:
  assumes "Version h = VersionV1"
    and "OriginalHeaderEncMethod h = XorEnc" "OriginalFilenameEncMethod h = XorEnc"
    and "length k1 = 4" "length k2 = 4"
  shows "Marshall h k1 k2 =
           Inr (NeoMagicNumber @ encodeVUint (of_nat (length (hdr_body h k1 k2)))
                  @ hdr_body h k1 k2, None)"
proof -
  have k1: "0 < length k1" "length k1 < 2 ^ 64" and k2: "0 < length k2" "length k2 < 2 ^ 64"
    using assms(4,5) by simp_all
  have flag: "(0::byte) OR (VersionV1 AND FlagVersion) = VersionV1"
    by (simp add: VersionV1_def FlagVersion_def)
  have w1: "writeContentWithXorEnc [VersionV1] (OriginalHeader h) k1
              = Inr ([VersionV1] @ [XorEnc] @ xor_body k1 (OriginalHeader h))"
    using k1 by (rule writeContentWithXorEnc_eq)
  have w2: "writeContentWithXorEnc ([VersionV1] @ [XorEnc] @ xor_body k1 (OriginalHeader h))
              (OriginalFilename h) k2
              = Inr (([VersionV1] @ [XorEnc] @ xor_body k1 (OriginalHeader h))
                       @ [XorEnc] @ xor_body k2 (OriginalFilename h))"
    using k2 by (rule writeContentWithXorEnc_eq)
  have body: "(([VersionV1] @ [XorEnc] @ xor_body k1 (OriginalHeader h))
                 @ [XorEnc] @ xor_body k2 (OriginalFilename h)) @ PutUint32 (Crc32 h)
              = hdr_body h k1 k2"
    by (simp add: hdr_body_def)
  have mg: "length NeoMagicNumber = 4" by (simp add: NeoMagicNumber_def)
  show ?thesis
    by (simp only: Marshall_def assms(1,2,3) flag Let_def w1 w2 body sum.case
          if_False if_True simp_thms assemble [OF mg])
qed

lemma UnMarshall_wire:
  assumes k1: "length k1 = 4" and k2: "length k2 = 4"
    and oh: "length (OriginalHeader h) < 2 ^ 63" and fn: "length (OriginalFilename h) < 2 ^ 63"
    and len: "length (hdr_body h k1 k2) < 2 ^ 63"
  shows "UnMarshall h0 (NeoMagicNumber @ encodeVUint (of_nat (length (hdr_body h k1 k2)))
                          @ hdr_body h k1 k2)
         = Inr (None, h0\<lparr>Version := VersionV1, OriginalHeaderEncMethod := XorEnc,
                          OriginalHeader := OriginalHeader h,
                          OriginalFilenameEncMethod := XorEnc,
                          OriginalFilename := OriginalFilename h, Crc32 := Crc32 h\<rparr>)"
proof -
  let ?B = "hdr_body h k1 k2"
  let ?enc = "encodeVUint (of_nat (length ?B))"
  let ?rest2 = "PutUint32 (Crc32 h)"
  let ?rest1 = "XorEnc # xor_body k2 (OriginalFilename h) @ ?rest2"
  have mg: "length NeoMagicNumber = 4" by (simp add: NeoMagicNumber_def)
  have lenp: "\<not> length (NeoMagicNumber @ ?enc @ ?B) \<le> 4"
    using length_encodeVUint_nat [OF len] by (simp add: mg)
  have dr: "drop 4 (NeoMagicNumber @ ?enc @ ?B) = ?enc @ ?B"
    by (simp add: mg)
  have dec: "decodeVUint (?enc @ ?B) = (of_nat (length ?B), ?B)"
    using len by (rule decode_encode_nat)
  have B: "?B = VersionV1 # XorEnc # xor_body k1 (OriginalHeader h) @ ?rest1"
    by (simp add: hdr_body_def)
  have flag: "VersionV1 AND FlagVersion = VersionV1"
    by (simp add: VersionV1_def FlagVersion_def)
  have l1: "loadContextWithXorEnc (xor_body k1 (OriginalHeader h) @ ?rest1)
              = Inr (OriginalHeader h, ?rest1)"
    using k1 oh by (intro loadContextWithXorEnc_body) simp_all
  have l2: "loadContextWithXorEnc (xor_body k2 (OriginalFilename h) @ ?rest2)
              = Inr (OriginalFilename h, ?rest2)"
    using k2 fn by (intro loadContextWithXorEnc_body) simp_all
  have sp: "split_at 4 ?rest2 = Inr (?rest2, [])"
    by (simp add: split_at_def PutUint32_def)
  have u32: "Uint32 ?rest2 = Inr (Crc32 h)"
    using Uint32_PutUint32 [of "Crc32 h" "[]"] by simp
  have "UnMarshall h0 (NeoMagicNumber @ ?enc @ ?B)
          = (case ?B of [] \<Rightarrow> Inl IndexOutOfRange | flag # p2 \<Rightarrow>
          let h1 = h0\<lparr>Version := flag AND FlagVersion\<rparr>
          in if Version h1 \<noteq> VersionV1 then Inr (Some ErrBadVersion, h1)
          else
            case p2 of [] \<Rightarrow> Inl IndexOutOfRange | m1 # p3 \<Rightarrow>
            let h2 = h1\<lparr>OriginalHeaderEncMethod := m1\<rparr>
            in if OriginalHeaderEncMethod h2 = XorEnc then
              (case loadContextWithXorEnc p3 of
                 Inl e \<Rightarrow> Inl e
               | Inr (content, p4) \<Rightarrow>
                 let h3 = h2\<lparr>OriginalHeader := content\<rparr>
                 in case p4 of [] \<Rightarrow> Inl IndexOutOfRange | m2 # p5 \<Rightarrow>
                 let h4 = h3\<lparr>OriginalFilenameEncMethod := m2\<rparr>
                 in if OriginalFilenameEncMethod h4 = XorEnc then
                   (case loadContextWithXorEnc p5 of
                      Inl e \<Rightarrow> Inl e
                    | Inr (filename, p6) \<Rightarrow>
                      let h5 = h4\<lparr>OriginalFilename := filename\<rparr>
                      in case split_at 4 p6 of
                           Inl e \<Rightarrow> Inl e
                         | Inr (crc32, p7) \<Rightarrow>
                           (case Uint32 crc32 of
                              Inl e \<Rightarrow> Inl e
                            | Inr c \<Rightarrow> Inr (None, h5\<lparr>Crc32 := c\<rparr>)))
                 else Inr (Some ErrUnknownCryptoMethod, h4))
            else Inr (Some ErrUnknownCryptoMethod, h2))"
    by (simp only: UnMarshall_def lenp dr dec if_False prod.case simp_thms)
  also have "\<dots> = Inr (None, h0\<lparr>Version := VersionV1, OriginalHeaderEncMethod := XorEnc,
                          OriginalHeader := OriginalHeader h,
                          OriginalFilenameEncMethod := XorEnc,
                          OriginalFilename := OriginalFilename h, Crc32 := Crc32 h\<rparr>)"
    by (subst B) (simp add: Let_def flag l1 l2 sp u32)
  finally show ?thesis .
qed

lemma length_xor_body_ge: "length c \<le> length (xor_body k c)"
  by (simp add: xor_body_def)

lemma length_hdr_body_ge:
  "length (OriginalHeader h) \<le> length (hdr_body h k1 k2)"
  "length (OriginalFilename h) \<le> length (hdr_body h k1 k2)"
  using length_xor_body_ge [of "OriginalHeader h" k1] length_xor_body_ge [of "OriginalFilename h" k2]
  by (simp_all add: hdr_body_def)

lemma length_decodeVUint_loop: "length (snd (decodeVUint_loop res p)) \<le> length p"
  by (induction p arbitrary: res) (simp_all add: le_SucI)

text \<open>
  C5. For every header with Version 1 and both methods XorEnc, whatever its
  OriginalHeader (the empty one too), its OriginalFilename (any bytes, so any UTF-8
  text) and its Crc32 are, and for any two keys of four bytes from the random source,
  Marshall succeeds, and UnMarshall of what Marshall returned succeeds and leaves the
  header equal to the original in all six fields, whatever it held before. A NeoHeader
  has no field for a key, and the result does not depend on the keys. The bytes that
  Marshall returned are a Go slice, so there are fewer than \<open>2 ^ 63\<close> of them.
\<close>

theorem Marshall_UnMarshall_roundtrip:
  assumes "Version h = VersionV1"
    and "OriginalHeaderEncMethod h = XorEnc" "OriginalFilenameEncMethod h = XorEnc"
    and "length k1 = 4" "length k2 = 4"
  shows "\<exists>b. Marshall h k1 k2 = Inr (b, None) \<and>
              (length b < 2 ^ 63 \<longrightarrow> UnMarshall h0 b = Inr (None, h))"
proof -
  let ?B = "hdr_body h k1 k2"
  let ?b = "NeoMagicNumber @ encodeVUint (of_nat (length ?B)) @ ?B"
  have m: "Marshall h k1 k2 = Inr (?b, None)"
    using assms by (rule Marshall_eq)
  have u: "UnMarshall h0 ?b = Inr (None, h)" if small: "length ?b < 2 ^ 63"
  proof -
    have len: "length ?B < 2 ^ 63" using small by simp
    have oh: "length (OriginalHeader h) < 2 ^ 63"
      using length_hdr_body_ge(1) [of h k1 k2] len by (rule le_less_trans)
    have fn: "length (OriginalFilename h) < 2 ^ 63"
      using length_hdr_body_ge(2) [of h k1 k2] len by (rule le_less_trans)
    have "h0\<lparr>Version := VersionV1, OriginalHeaderEncMethod := XorEnc,
              OriginalHeader := OriginalHeader h, OriginalFilenameEncMethod := XorEnc,
              OriginalFilename := OriginalFilename h, Crc32 := Crc32 h\<rparr> = h"
      using assms(1,2,3) by (cases h, cases h0) simp
    with UnMarshall_wire [OF assms(4,5) oh fn len, of h0] show ?thesis by simp
  qed
  show ?thesis using m u by blast
qed

theorem Marshall_UnMarshall_roundtrip_witness:
  "\<exists>b. Marshall test_hdr [1, 2, 3, 4] [5, 6, 7, 8] = Inr (b, None) \<and> length b < 2 ^ 63 \<and>
        UnMarshall new_NeoHeader b = Inr (None, test_hdr)"
proof -
  have h: "Version test_hdr = VersionV1" "OriginalHeaderEncMethod test_hdr = XorEnc"
    "OriginalFilenameEncMethod test_hdr = XorEnc" "length [1, 2, 3, 4 :: byte] = 4"
    "length [5, 6, 7, 8 :: byte] = 4"
    by (simp_all add: test_hdr_def VersionV1_def XorEnc_def)
  from Marshall_UnMarshall_roundtrip [OF h, of new_NeoHeader]
  obtain b where b: "Marshall test_hdr [1, 2, 3, 4] [5, 6, 7, 8] = Inr (b, None)"
    and imp: "length b < 2 ^ 63 \<longrightarrow> UnMarshall new_NeoHeader b = Inr (None, test_hdr)"
    by blast
  have "length (fst (projr (Marshall test_hdr [1, 2, 3, 4] [5, 6, 7, 8]))) = 60"
    by code_simp
  with b have "length b < 2 ^ 63" by simp
  with b imp show ?thesis by blast
qed

text \<open>
  C6, as the code has it. For every input of at least 5 bytes whose declared length (the
  variable-length integer after the first four bytes) differs from the number of bytes
  that follow it, UnMarshall panics with \<open>len not equal\<close>; it reads no field first and
  fails in no other way. It returns nothing to its caller, so no error value either.
\<close>

theorem UnMarshall_length_mismatch_panics:
  assumes "5 \<le> length p" "length p < 2 ^ 64"
    and "decodeVUint (drop 4 p) = (neoHdrlen, rest)"
    and "unat neoHdrlen \<noteq> length rest"
  shows "UnMarshall h p = Inl LenNotEqual"
proof -
  have "length rest \<le> length (drop 4 p)"
    using length_decodeVUint_loop [of 0 "drop 4 p"] assms(3) by (simp add: decodeVUint_def)
  then have small: "length rest < 2 ^ 64" using assms(2) by simp
  have "(of_nat (length rest) :: uint) \<noteq> neoHdrlen"
  proof
    assume "(of_nat (length rest) :: uint) = neoHdrlen"
    then have "unat neoHdrlen = unat (of_nat (length rest) :: uint)" by simp
    also have "\<dots> = length rest" using small by (simp only: unat_of_nat) simp
    finally show False using assms(4) by simp
  qed
  then show ?thesis using assms(1,3) by (simp add: UnMarshall_def)
qed

theorem UnMarshall_length_mismatch_panics_witness:
  "5 \<le> length [0xFF, 0x4E, 0x45, 0x4F, 0x05 :: byte] \<and>
   length [0xFF, 0x4E, 0x45, 0x4F, 0x05 :: byte] < 2 ^ 64 \<and>
   decodeVUint (drop 4 [0xFF, 0x4E, 0x45, 0x4F, 0x05]) = (5, []) \<and>
   unat (5 :: uint) \<noteq> length ([] :: byte list) \<and>
   UnMarshall new_NeoHeader [0xFF, 0x4E, 0x45, 0x4F, 0x05] = Inl LenNotEqual"
proof -
  have a: "5 \<le> length [0xFF, 0x4E, 0x45, 0x4F, 0x05 :: byte]"
    and b: "length [0xFF, 0x4E, 0x45, 0x4F, 0x05 :: byte] < 2 ^ 64"
    and c: "decodeVUint (drop 4 [0xFF, 0x4E, 0x45, 0x4F, 0x05]) = (5, [])"
    and d: "unat (5 :: uint) \<noteq> length ([] :: byte list)"
    by (simp_all add: decodeVUint_def)
  from UnMarshall_length_mismatch_panics [OF a b c d, of new_NeoHeader] a b c d
  show ?thesis by blast
qed

text \<open>
  C6 as stated, with an error that UnMarshall returns, fails on the five bytes of the
  magic number and a declared length of 5 with nothing behind it.
\<close>

theorem UnMarshall_returns_no_error_counterexample:
  "UnMarshall new_NeoHeader [0xFF, 0x4E, 0x45, 0x4F, 0x05] = Inl LenNotEqual \<and>
   \<not> (\<exists>e h'. UnMarshall new_NeoHeader [0xFF, 0x4E, 0x45, 0x4F, 0x05] = Inr (Some e, h'))"
  by (simp add: UnMarshall_def decodeVUint_def)

end
